theory Spec2Isabelle
  imports Complex_Main
begin

section \<open>The playback module imported from ./pkg\<close>

text \<open>
  \<^verbatim>\<open>index.js\<close> is the whole source. It imports \<^verbatim>\<open>./pkg\<close>, calls
  \<^verbatim>\<open>rust_module.play()\<close> and keeps the returned object in the variable
  \<^verbatim>\<open>handle\<close>, on which it calls \<^verbatim>\<open>free()\<close>. The module itself is not
  among the sources, so the two operations the page calls are modelled from the
  specification (sections 3, 4.1 and 4.3): a handle has a unique id and a lifecycle state
  \<open>Active | Freed\<close>, owns a Parameter Store, is created by \<open>play()\<close> and destroyed by
  \<open>free()\<close>, and a double free is a no-op guarded by the state check.
\<close>

datatype lifecycle = Active | Freed

text \<open>What a call on a handle reports: the specification's \<open>InvalidState\<close> is a reported
  condition, a value, never a crash.\<close>

datatype condition = Ok | InvalidState

record graph_config =
  max_delay_seconds :: rat
  delay_seconds :: rat

record handle_entry =
  lifecycle :: lifecycle
  parameter_store :: "string \<rightharpoonup> rat"

text \<open>
  The state behind the module: the next unused handle id, the handles created so far, the
  configuration \<open>play()\<close> creates a handle with, and a log of the destructions performed
  (the id of every handle whose resources have been released, oldest first).
\<close>

record engine =
  next_id :: nat
  handles :: "nat \<rightharpoonup> handle_entry"
  config :: graph_config
  destroyed :: "nat list"

text \<open>Modelled from the spec: the clamping of section 4.1 (the module's source is missing).
  An out-of-range value is moved to the nearest boundary of the range.\<close>

definition clamp_value :: "rat \<Rightarrow> rat \<Rightarrow> rat \<Rightarrow> rat" where
  "clamp_value lo hi v = (if v < lo then lo else if hi < v then hi else v)"

text \<open>Modelled from the spec: the valid range of each named parameter (section 4.1:
  the delay lies in \<open>[0, max_delay_seconds]\<close>); the set of names is fixed and small.\<close>

definition valid_range :: "graph_config \<Rightarrow> string \<Rightarrow> (rat \<times> rat) option" where
  "valid_range c name =
     (if name = ''delay_seconds'' then Some (0, max_delay_seconds c) else None)"

text \<open>Modelled from the spec: \<open>play()\<close> of the missing module (sections 2 and 4.3). It
  allocates a Parameter Store, wraps it in a handle with a unique id, and returns the
  handle in state \<open>Active\<close>.\<close>

definition play :: "engine \<Rightarrow> nat \<times> engine" where
  "play e =
     (next_id e,
      e\<lparr>next_id := Suc (next_id e),
        handles := (handles e)(next_id e \<mapsto>
          \<lparr>lifecycle = Active,
           parameter_store =
             [''delay_seconds'' \<mapsto>
                clamp_value 0 (max_delay_seconds (config e)) (delay_seconds (config e))]\<rparr>)\<rparr>)"

text \<open>Modelled from the spec: \<open>free()\<close> of the missing module (sections 3 and 4.3). On an
  \<open>Active\<close> handle it releases the owned resources and moves the handle to \<open>Freed\<close>; the
  state check makes it a no-op on a handle that is already \<open>Freed\<close>, and on an id that
  was never handed out.\<close>

definition free :: "nat \<Rightarrow> engine \<Rightarrow> engine" where
  "free h e =
     (case handles e h of
        None \<Rightarrow> e
      | Some en \<Rightarrow>
          (case lifecycle en of
             Freed \<Rightarrow> e
           | Active \<Rightarrow>
               e\<lparr>handles := (handles e)(h \<mapsto> \<lparr>lifecycle = Freed, parameter_store = Map.empty\<rparr>),
                 destroyed := destroyed e @ [h]\<rparr>))"

text \<open>Modelled from the spec: the parameter-change operation of the missing module
  (sections 4.1, 4.3 and 6). On an \<open>Active\<close> handle the clamped value is stored; a name
  outside the fixed set changes nothing; on a \<open>Freed\<close> handle the call changes nothing and
  reports \<open>InvalidState\<close>.\<close>

definition set_parameter :: "nat \<Rightarrow> string \<Rightarrow> rat \<Rightarrow> engine \<Rightarrow> condition \<times> engine" where
  "set_parameter h name v e =
     (case handles e h of
        None \<Rightarrow> (InvalidState, e)
      | Some en \<Rightarrow>
          (case lifecycle en of
             Freed \<Rightarrow> (InvalidState, e)
           | Active \<Rightarrow>
               (case valid_range (config e) name of
                  None \<Rightarrow> (Ok, e)
                | Some (lo, hi) \<Rightarrow>
                    (Ok, e\<lparr>handles := (handles e)(h \<mapsto>
                           en\<lparr>parameter_store :=
                                (parameter_store en)(name \<mapsto> clamp_value lo hi v)\<rparr>)\<rparr>))))"

text \<open>The calls a holder of a handle can make on it, and their effect on the module.\<close>

datatype handle_call = Free_call | Set_call string rat

fun call_on :: "nat \<Rightarrow> handle_call \<Rightarrow> engine \<Rightarrow> condition \<times> engine" where
  "call_on h Free_call e = (Ok, free h e)"
| "call_on h (Set_call name v) e = set_parameter h name v e"

fun calls_on :: "nat \<Rightarrow> handle_call list \<Rightarrow> engine \<Rightarrow> engine" where
  "calls_on h [] e = e"
| "calls_on h (c # cs) e = calls_on h cs (snd (call_on h c e))"

text \<open>The calls a control context can make on the module as a whole: \<open>play()\<close>, and a
  call on any handle id.\<close>

datatype module_call = Play_call | Handle_call nat handle_call

fun module_step :: "module_call \<Rightarrow> engine \<Rightarrow> engine" where
  "module_step Play_call e = snd (play e)"
| "module_step (Handle_call h c) e = snd (call_on h c e)"

fun module_run :: "module_call list \<Rightarrow> engine \<Rightarrow> engine" where
  "module_run [] e = e"
| "module_run (c # cs) e = module_run cs (module_step c e)"

text \<open>The module as it is before the first call.\<close>

definition new_engine :: "graph_config \<Rightarrow> engine" where
  "new_engine c = \<lparr>next_id = 0, handles = Map.empty, config = c, destroyed = []\<rparr>"

text \<open>
  What holds of every state the module reaches: only ids below \<open>next_id\<close> have been
  handed out, and the destruction log holds exactly the \<open>Freed\<close> handles, each once.
\<close>

definition is_freed :: "engine \<Rightarrow> nat \<Rightarrow> bool" where
  "is_freed e h = (case handles e h of None \<Rightarrow> False | Some en \<Rightarrow> lifecycle en = Freed)"

definition is_active :: "engine \<Rightarrow> nat \<Rightarrow> bool" where
  "is_active e h = (case handles e h of None \<Rightarrow> False | Some en \<Rightarrow> lifecycle en = Active)"

definition engine_ok :: "engine \<Rightarrow> bool" where
  "engine_ok e =
     ((\<forall>h. handles e h \<noteq> None \<longrightarrow> h < next_id e) \<and>
      (\<forall>h. count_list (destroyed e) h = (if is_freed e h then 1 else 0)))"

section \<open>The page: index.js\<close>

text \<open>
  \<^verbatim>\<open>
  import("./pkg").catch(console.error).then(rust_module => {
      let handle = null
      play_button.addEventListener("click", event => {
          handle = rust_module.play()
      })
      stop_button.addEventListener("click", event => {
          if (handle !== null) {
              handle.free()
              handle = null
          }
      })
      delay_slider.addEventListener("change", event => {
          if (handle !== null) {
              // TODO: Connect this to your filter.
          }
      })
  })
  \<close>
  The state of the page is the variable \<open>handle\<close> (\<open>None\<close> is \<open>null\<close>), whether the import
  succeeded (when it fails, \<open>catch(console.error)\<close> resolves to \<open>undefined\<close> and
  \<open>rust_module\<close> is \<open>undefined\<close> in the handlers), and the state of the module. The
  calls the page has made on the module are logged, oldest first.
\<close>

datatype js_error = TypeError

datatype foreign_call = Called_play | Called_free nat

record page =
  loaded :: bool
  rust_module :: engine
  handle :: "nat option"
  calls :: "foreign_call list"

text \<open>The click handler of the play button. With \<open>rust_module\<close> undefined the property
  access throws before the assignment, so \<open>handle\<close> keeps its value.\<close>

definition play_button_click :: "page \<Rightarrow> js_error + page" where
  "play_button_click p =
     (if \<not> loaded p then Inl TypeError
      else (case play (rust_module p) of
              (h, e') \<Rightarrow>
                Inr (p\<lparr>rust_module := e', handle := Some h, calls := calls p @ [Called_play]\<rparr>)))"

text \<open>The click handler of the stop button.\<close>

definition stop_button_click :: "page \<Rightarrow> page" where
  "stop_button_click p =
     (case handle p of
        None \<Rightarrow> p
      | Some h \<Rightarrow>
          p\<lparr>rust_module := free h (rust_module p), handle := None,
            calls := calls p @ [Called_free h]\<rparr>)"

text \<open>The change handler of the delay slider; the argument is the slider's value, which
  the handler never reads. The body of the \<open>if\<close> is a comment only.\<close>

definition delay_slider_change :: "rat \<Rightarrow> page \<Rightarrow> page" where
  "delay_slider_change v p = (case handle p of None \<Rightarrow> p | Some h \<Rightarrow> p)"

text \<open>The events of the page. An exception thrown by a handler ends that handler only:
  the page stays as it was and later events are still handled.\<close>

datatype ui_event = Play_click | Stop_click | Delay_change rat

fun ui_step :: "ui_event \<Rightarrow> page \<Rightarrow> page" where
  "ui_step Play_click p = (case play_button_click p of Inl err \<Rightarrow> p | Inr p' \<Rightarrow> p')"
| "ui_step Stop_click p = stop_button_click p"
| "ui_step (Delay_change v) p = delay_slider_change v p"

fun ui_run :: "ui_event list \<Rightarrow> page \<Rightarrow> page" where
  "ui_run [] p = p"
| "ui_run (ev # evs) p = ui_run evs (ui_step ev p)"

text \<open>The page when the import has settled: no handle stored, no call made yet.\<close>

definition start_page :: "bool \<Rightarrow> graph_config \<Rightarrow> page" where
  "start_page ld c = \<lparr>loaded = ld, rust_module = new_engine c, handle = None, calls = []\<rparr>"

text \<open>
  What holds of every page reachable from the start: the module's state is well formed, a
  stored handle is \<open>Active\<close> in the module, and every handle the page has called
  \<open>free()\<close> on is \<open>Freed\<close>.
\<close>

definition page_ok :: "page \<Rightarrow> bool" where
  "page_ok p =
     (engine_ok (rust_module p) \<and>
      (case handle p of None \<Rightarrow> True | Some h \<Rightarrow> is_active (rust_module p) h) \<and>
      (\<forall>h. Called_free h \<in> set (calls p) \<longrightarrow> is_freed (rust_module p) h))"

text \<open>A session the page can no longer reach: the handle is still \<open>Active\<close> in the module, and
  it is not the one stored in the variable \<open>handle\<close>.\<close>

definition orphaned :: "page \<Rightarrow> nat \<Rightarrow> bool" where
  "orphaned p h = (is_active (rust_module p) h \<and> handle p \<noteq> Some h)"

section \<open>The module: what every reachable state satisfies\<close>


lemma engine_ok_new: "engine_ok (new_engine c)"
  by (simp add: engine_ok_def new_engine_def is_freed_def)

lemma active_not_freed: "is_active e h \<Longrightarrow> \<not> is_freed e h"
  by (auto simp: is_active_def is_freed_def split: option.splits)

lemma next_id_play: "next_id (snd (play e)) = Suc (next_id e)"
  by (simp add: play_def)

lemma destroyed_play: "destroyed (snd (play e)) = destroyed e"
  by (simp add: play_def)

lemma handles_play:
  "handles (snd (play e)) h \<noteq> None \<longleftrightarrow> handles e h \<noteq> None \<or> h = next_id e"
  by (simp add: play_def)

lemma is_freed_play:
  "handles e (next_id e) = None \<Longrightarrow> is_freed (snd (play e)) h = is_freed e h"
  by (simp add: play_def is_freed_def)

lemma is_active_play:
  "handles e (next_id e) = None \<Longrightarrow>
   is_active (snd (play e)) h = (is_active e h \<or> h = next_id e)"
  by (simp add: play_def is_active_def)

lemma next_id_unused: "engine_ok e \<Longrightarrow> handles e (next_id e) = None"
  unfolding engine_ok_def by (metis less_irrefl)

lemma engine_ok_play:
  assumes "engine_ok e" shows "engine_ok (snd (play e))"
proof -
  have u: "handles e (next_id e) = None" using assms by (rule next_id_unused)
  have a: "\<forall>h. handles (snd (play e)) h \<noteq> None \<longrightarrow> h < next_id (snd (play e))"
    using assms unfolding engine_ok_def handles_play next_id_play
    by (simp add: less_Suc_eq)
  have b: "\<forall>h. count_list (destroyed (snd (play e))) h = (if is_freed (snd (play e)) h then 1 else 0)"
    using assms unfolding engine_ok_def by (simp add: destroyed_play is_freed_play [OF u])
  show ?thesis unfolding engine_ok_def using a b by blast
qed

lemma next_id_free: "next_id (free k e) = next_id e"
  by (simp add: free_def split: option.splits lifecycle.splits)

lemma handles_free: "handles (free k e) h \<noteq> None \<longleftrightarrow> handles e h \<noteq> None"
  by (simp add: free_def split: option.splits lifecycle.splits)

lemma destroyed_free:
  "destroyed (free k e) = (if is_active e k then destroyed e @ [k] else destroyed e)"
  by (simp add: free_def is_active_def split: option.splits lifecycle.splits)

lemma is_freed_free: "is_freed (free k e) h = (is_freed e h \<or> (k = h \<and> is_active e h))"
  by (auto simp: free_def is_freed_def is_active_def split: option.splits lifecycle.splits)

lemma engine_ok_free:
  assumes "engine_ok e" shows "engine_ok (free k e)"
proof -
  have a: "\<forall>h. handles (free k e) h \<noteq> None \<longrightarrow> h < next_id (free k e)"
    using assms unfolding engine_ok_def handles_free next_id_free by simp
  have c: "\<And>h. count_list (destroyed e) h = (if is_freed e h then 1 else 0)"
    using assms unfolding engine_ok_def by simp
  have b: "\<forall>h. count_list (destroyed (free k e)) h = (if is_freed (free k e) h then 1 else 0)"
    using active_not_freed [of e k] by (auto simp: destroyed_free is_freed_free c)
  show ?thesis unfolding engine_ok_def using a b by blast
qed

lemma next_id_set_parameter: "next_id (snd (set_parameter k name v e)) = next_id e"
  by (simp add: set_parameter_def split: option.splits lifecycle.splits)

lemma destroyed_set_parameter: "destroyed (snd (set_parameter k name v e)) = destroyed e"
  by (simp add: set_parameter_def split: option.splits lifecycle.splits)

lemma handles_set_parameter:
  "handles (snd (set_parameter k name v e)) h \<noteq> None \<longleftrightarrow> handles e h \<noteq> None"
  by (simp add: set_parameter_def split: option.splits lifecycle.splits)

lemma is_freed_set_parameter: "is_freed (snd (set_parameter k name v e)) h = is_freed e h"
  by (auto simp: set_parameter_def is_freed_def split: option.splits lifecycle.splits)

lemma engine_ok_set_parameter:
  "engine_ok e \<Longrightarrow> engine_ok (snd (set_parameter k name v e))"
  unfolding engine_ok_def handles_set_parameter next_id_set_parameter
    destroyed_set_parameter is_freed_set_parameter .

lemma engine_ok_call_on: "engine_ok e \<Longrightarrow> engine_ok (snd (call_on h c e))"
  by (cases c) (simp_all add: engine_ok_free engine_ok_set_parameter)

lemma engine_ok_module_step: "engine_ok e \<Longrightarrow> engine_ok (module_step c e)"
  by (cases c) (simp_all add: engine_ok_play engine_ok_call_on)

lemma engine_ok_module_run: "engine_ok e \<Longrightarrow> engine_ok (module_run cs e)"
  by (induction cs arbitrary: e) (simp_all add: engine_ok_module_step)

lemma free_freed: "is_freed e h \<Longrightarrow> free h e = e"
  by (auto simp: free_def is_freed_def split: option.splits lifecycle.splits)

lemma set_parameter_freed: "is_freed e h \<Longrightarrow> set_parameter h name v e = (InvalidState, e)"
  by (auto simp: set_parameter_def is_freed_def split: option.splits lifecycle.splits)

lemma call_on_freed: "is_freed e h \<Longrightarrow> snd (call_on h c e) = e"
  by (cases c) (simp_all add: free_freed set_parameter_freed)

lemma calls_on_freed: "is_freed e h \<Longrightarrow> calls_on h cs e = e"
  by (induction cs) (simp_all add: call_on_freed)

lemma is_freed_module_step:
  assumes "engine_ok e" "is_freed e h" shows "is_freed (module_step c e) h"
proof (cases c)
  case Play_call
  then show ?thesis using assms by (simp add: is_freed_play next_id_unused)
next
  case (Handle_call k d)
  then show ?thesis using assms
    by (cases d) (simp_all add: is_freed_free is_freed_set_parameter)
qed

lemma is_freed_module_run:
  "engine_ok e \<Longrightarrow> is_freed e h \<Longrightarrow> is_freed (module_run cs e) h"
  by (induction cs arbitrary: e) (simp_all add: is_freed_module_step engine_ok_module_step)

lemma destroyed_count:
  "engine_ok e \<Longrightarrow> count_list (destroyed e) h = (if is_freed e h then 1 else 0)"
  by (simp add: engine_ok_def)


section \<open>The page: what every reachable page satisfies\<close>

lemma page_ok_start: "page_ok (start_page ld c)"
  by (simp add: page_ok_def start_page_def engine_ok_new)

lemma play_button_click_loaded:
  "loaded p \<Longrightarrow>
   play_button_click p =
     Inr (p\<lparr>rust_module := snd (play (rust_module p)), handle := Some (fst (play (rust_module p))),
            calls := calls p @ [Called_play]\<rparr>)"
  by (simp add: play_button_click_def play_def)

lemma play_button_click_not_loaded: "\<not> loaded p \<Longrightarrow> play_button_click p = Inl TypeError"
  by (simp add: play_button_click_def)

lemma fst_play: "fst (play e) = next_id e"
  by (simp add: play_def)

lemma page_ok_play:
  assumes "page_ok p"
  shows "page_ok (p\<lparr>rust_module := snd (play (rust_module p)),
                    handle := Some (fst (play (rust_module p))),
                    calls := calls p @ [Called_play]\<rparr>)"
proof -
  have ok: "engine_ok (rust_module p)" using assms by (simp add: page_ok_def)
  have u: "handles (rust_module p) (next_id (rust_module p)) = None"
    using ok by (rule next_id_unused)
  have fr: "\<forall>h. Called_free h \<in> set (calls p) \<longrightarrow> is_freed (rust_module p) h"
    using assms by (simp add: page_ok_def)
  show ?thesis
    unfolding page_ok_def using fr
    by (simp add: fst_play engine_ok_play [OF ok] is_active_play [OF u] is_freed_play [OF u])
qed

lemma page_ok_stop:
  assumes "page_ok p" shows "page_ok (stop_button_click p)"
proof (cases "handle p")
  case None
  then show ?thesis using assms by (simp add: stop_button_click_def)
next
  case (Some h)
  have ok: "engine_ok (rust_module p)" using assms by (simp add: page_ok_def)
  have act: "is_active (rust_module p) h" using assms Some by (simp add: page_ok_def)
  have fr: "\<forall>k. Called_free k \<in> set (calls p) \<longrightarrow> is_freed (rust_module p) k"
    using assms by (simp add: page_ok_def)
  show ?thesis
    unfolding page_ok_def using Some act fr
    by (auto simp: stop_button_click_def engine_ok_free [OF ok] is_freed_free)
qed

lemma delay_slider_change_id: "delay_slider_change v p = p"
  by (simp add: delay_slider_change_def split: option.splits)

lemma page_ok_ui_step: "page_ok p \<Longrightarrow> page_ok (ui_step ev p)"
proof (cases ev)
  case Play_click
  assume "page_ok p"
  then show ?thesis using Play_click
    by (cases "loaded p")
       (simp_all add: play_button_click_loaded play_button_click_not_loaded page_ok_play)
next
  case Stop_click
  assume "page_ok p"
  then show ?thesis using Stop_click by (simp add: page_ok_stop)
next
  case (Delay_change v)
  assume "page_ok p"
  then show ?thesis using Delay_change by (simp add: delay_slider_change_id)
qed

lemma page_ok_ui_run: "page_ok p \<Longrightarrow> page_ok (ui_run evs p)"
  by (induction evs arbitrary: p) (simp_all add: page_ok_ui_step)

lemma page_ok_reachable: "page_ok (ui_run evs (start_page ld c))"
  by (rule page_ok_ui_run [OF page_ok_start])

lemma is_active_free: "is_active (free k e) h = (is_active e h \<and> k \<noteq> h)"
  by (auto simp: free_def is_active_def split: option.splits lifecycle.splits)

lemma orphaned_ui_step:
  assumes "page_ok p" "orphaned p h" shows "orphaned (ui_step ev p) h"
proof (cases ev)
  case Play_click
  have ok: "engine_ok (rust_module p)" using assms(1) by (simp add: page_ok_def)
  have u: "handles (rust_module p) (next_id (rust_module p)) = None"
    using ok by (rule next_id_unused)
  have ne: "h \<noteq> next_id (rust_module p)"
    using assms(2) u by (auto simp: orphaned_def is_active_def)
  show ?thesis using Play_click assms(2) ne
    by (cases "loaded p")
       (simp_all add: play_button_click_loaded play_button_click_not_loaded orphaned_def
          fst_play is_active_play [OF u])
next
  case Stop_click
  then show ?thesis using assms(2)
    by (auto simp: stop_button_click_def orphaned_def is_active_free split: option.splits)
next
  case (Delay_change v)
  then show ?thesis using assms(2) by (simp add: delay_slider_change_id)
qed

lemma orphaned_ui_run: "page_ok p \<Longrightarrow> orphaned p h \<Longrightarrow> orphaned (ui_run evs p) h"
  by (induction evs arbitrary: p) (simp_all add: orphaned_ui_step page_ok_ui_step)

lemma orphaned_never_freed:
  assumes "page_ok p" "orphaned p h" shows "Called_free h \<notin> set (calls p)"
proof
  assume "Called_free h \<in> set (calls p)"
  then have "is_freed (rust_module p) h" using assms(1) by (simp add: page_ok_def)
  then show False using assms(2) active_not_freed by (auto simp: orphaned_def)
qed

lemma stop_button_click_twice: "stop_button_click (stop_button_click p) = stop_button_click p"
  by (simp add: stop_button_click_def split: option.splits)

lemma handle_stop_button_click: "handle (stop_button_click p) = None"
  by (simp add: stop_button_click_def split: option.splits)

section \<open>The delay slider\<close>

text \<open>
  Claim C1: every user interaction on the delay slider while a handle is stored delivers a
  parameter change (name "delay", numeric value) to the Parameter Store. The handler does
  not: its body is the comment \<^verbatim>\<open>TODO: Connect this to your filter.\<close> and nothing
  else. Evaluated on the page after one click on play (handle 0 stored, delay 1/2 in its
  store), a change of the slider to 1/4 leaves the page as it was, makes no call on the
  module, and the stored delay is still 1/2.
\<close>

theorem delay_slider_change_delivers_nothing:
  "handle (ui_run [Play_click] (start_page True \<lparr>max_delay_seconds = 2, delay_seconds = 1/2\<rparr>))
     = Some 0 \<and>
   delay_slider_change (1/4)
      (ui_run [Play_click] (start_page True \<lparr>max_delay_seconds = 2, delay_seconds = 1/2\<rparr>))
     = ui_run [Play_click] (start_page True \<lparr>max_delay_seconds = 2, delay_seconds = 1/2\<rparr>) \<and>
   calls (delay_slider_change (1/4)
      (ui_run [Play_click] (start_page True \<lparr>max_delay_seconds = 2, delay_seconds = 1/2\<rparr>)))
     = [Called_play] \<and>
   map_option (\<lambda>en. parameter_store en ''delay_seconds'')
     (handles (rust_module (delay_slider_change (1/4)
        (ui_run [Play_click] (start_page True \<lparr>max_delay_seconds = 2, delay_seconds = 1/2\<rparr>)))) 0)
     = Some (Some (1/2))"
  by (simp add: delay_slider_change_id start_page_def new_engine_def play_button_click_def
      play_def clamp_value_def)

section \<open>Freeing a handle\<close>

text \<open>
  Claim C2: \<open>free()\<close> destroys a handle exactly once, and any further call on the same
  handle (a second \<open>free()\<close> included) is a no-op that never crashes; in the page, a
  second click on stop finds the stored handle null and does nothing.

  For a well-formed module state and an \<open>Active\<close> handle \<open>h\<close>: nothing of \<open>h\<close> has been
  destroyed before; \<open>free()\<close> moves it to \<open>Freed\<close> and logs one destruction; a second
  \<open>free()\<close> returns the same state; every further call on \<open>h\<close> returns a condition and
  the same state, and so does every sequence of such calls; whatever the module is asked
  afterwards (more \<open>play()\<close>, calls on any handle), \<open>h\<close> stays \<open>Freed\<close> with exactly one
  destruction logged; no run of the module destroys any handle twice. For the page (any
  page): after a click on stop the stored handle is null, and a second click on stop
  returns the same page, so it makes no call.
\<close>

theorem free_destroys_once_then_noop:
  assumes "engine_ok e" and "is_active e h"
  shows "count_list (destroyed e) h = 0 \<and>
         is_freed (free h e) h \<and>
         count_list (destroyed (free h e)) h = 1 \<and>
         free h (free h e) = free h e \<and>
         (\<forall>c. \<exists>r. call_on h c (free h e) = (r, free h e)) \<and>
         (\<forall>cs. calls_on h cs (free h e) = free h e) \<and>
         (\<forall>ms. is_freed (module_run ms (free h e)) h \<and>
               count_list (destroyed (module_run ms (free h e))) h = 1) \<and>
         (\<forall>ms k. count_list (destroyed (module_run ms e)) k \<le> 1) \<and>
         (\<forall>p. handle (stop_button_click p) = None \<and>
              stop_button_click (stop_button_click p) = stop_button_click p)"
proof -
  have nf: "\<not> is_freed e h" using assms(2) by (rule active_not_freed)
  have c0: "count_list (destroyed e) h = 0"
    using destroyed_count [OF assms(1), of h] nf by simp
  have fr: "is_freed (free h e) h" using assms(2) by (simp add: is_freed_free)
  have ok: "engine_ok (free h e)" using assms(1) by (rule engine_ok_free)
  have c1: "count_list (destroyed (free h e)) h = 1"
    using destroyed_count [OF ok, of h] fr by simp
  have twice: "free h (free h e) = free h e" using fr by (rule free_freed)
  have one: "\<forall>c. \<exists>r. call_on h c (free h e) = (r, free h e)"
  proof
    fix c
    have "snd (call_on h c (free h e)) = free h e" using fr by (rule call_on_freed)
    then show "\<exists>r. call_on h c (free h e) = (r, free h e)"
      by (metis prod.collapse)
  qed
  have many: "\<forall>cs. calls_on h cs (free h e) = free h e"
    using fr by (simp add: calls_on_freed)
  have later: "\<forall>ms. is_freed (module_run ms (free h e)) h \<and>
      count_list (destroyed (module_run ms (free h e))) h = 1"
  proof
    fix ms
    have f: "is_freed (module_run ms (free h e)) h" using ok fr by (rule is_freed_module_run)
    have "engine_ok (module_run ms (free h e))" using ok by (rule engine_ok_module_run)
    from destroyed_count [OF this, of h] f
    show "is_freed (module_run ms (free h e)) h \<and>
      count_list (destroyed (module_run ms (free h e))) h = 1" by simp
  qed
  have most: "\<forall>ms k. count_list (destroyed (module_run ms e)) k \<le> 1"
  proof (intro allI)
    fix ms k
    have "engine_ok (module_run ms e)" using assms(1) by (rule engine_ok_module_run)
    from destroyed_count [OF this, of k]
    show "count_list (destroyed (module_run ms e)) k \<le> 1" by simp
  qed
  have ui: "\<forall>p. handle (stop_button_click p) = None \<and>
      stop_button_click (stop_button_click p) = stop_button_click p"
    by (simp add: stop_button_click_twice handle_stop_button_click)
  show ?thesis using c0 fr c1 twice one many later most ui by blast
qed

text \<open>
  The theorem at the module after one \<open>play()\<close>: handle 0 is \<open>Active\<close>; freeing it logs
  the one destruction; freeing it twice and then setting its delay gives the state of the
  first \<open>free()\<close>; and on the page after one click on play, two clicks on stop have made one
  call of \<open>free()\<close>.
\<close>

theorem free_destroys_once_then_noop_witness:
  "is_active (snd (play (new_engine \<lparr>max_delay_seconds = 2, delay_seconds = 1/2\<rparr>))) 0 \<and>
   destroyed (free 0 (snd (play (new_engine \<lparr>max_delay_seconds = 2, delay_seconds = 1/2\<rparr>)))) = [0] \<and>
   snd (set_parameter 0 ''delay_seconds'' 1
          (free 0 (free 0 (snd (play (new_engine \<lparr>max_delay_seconds = 2, delay_seconds = 1/2\<rparr>))))))
     = free 0 (snd (play (new_engine \<lparr>max_delay_seconds = 2, delay_seconds = 1/2\<rparr>))) \<and>
   calls (stop_button_click (stop_button_click
      (ui_run [Play_click] (start_page True \<lparr>max_delay_seconds = 2, delay_seconds = 1/2\<rparr>))))
     = [Called_play, Called_free 0]"
proof -
  let ?e = "snd (play (new_engine \<lparr>max_delay_seconds = 2, delay_seconds = 1/2\<rparr>))"
  let ?P = "ui_run [Play_click] (start_page True \<lparr>max_delay_seconds = 2, delay_seconds = 1/2\<rparr>)"
  have ok: "engine_ok ?e" by (rule engine_ok_play [OF engine_ok_new])
  have act: "is_active ?e 0" by (simp add: is_active_def play_def new_engine_def)
  have d: "destroyed (free 0 ?e) = [0]"
    by (simp add: free_def play_def new_engine_def)
  note t = free_destroys_once_then_noop [OF ok act]
  from t have twice: "free 0 (free 0 ?e) = free 0 ?e" by blast
  from t have "calls_on 0 [Set_call ''delay_seconds'' 1] (free 0 ?e) = free 0 ?e" by blast
  then have s: "snd (set_parameter 0 ''delay_seconds'' 1 (free 0 ?e)) = free 0 ?e" by simp
  from t have u: "stop_button_click (stop_button_click ?P) = stop_button_click ?P" by blast
  have c: "calls (stop_button_click ?P) = [Called_play, Called_free 0]"
    by (simp add: start_page_def new_engine_def play_button_click_def play_def
        stop_button_click_def)
  show ?thesis using act d twice s u c by simp
qed

section \<open>Clicking play while a handle is stored\<close>

text \<open>
  Claim C9 says that every click of the play button stores a fresh handle from
  \<open>rust_module.play()\<close>. As stated it fails on the page whose import was rejected:
  \<open>catch(console.error)\<close> resolves to \<open>undefined\<close>, the handlers are registered all the
  same, and a click on play throws a TypeError at \<open>rust_module.play\<close> before the
  assignment. On that page (the start page with the module not loaded) the click
  returns the error, the variable \<open>handle\<close> is still null and no call has been made.
\<close>

theorem play_click_without_module_counterexample:
  "page_ok (start_page False \<lparr>max_delay_seconds = 2, delay_seconds = 1/2\<rparr>) \<and>
   play_button_click (start_page False \<lparr>max_delay_seconds = 2, delay_seconds = 1/2\<rparr>)
     = Inl TypeError \<and>
   handle (ui_step Play_click (start_page False \<lparr>max_delay_seconds = 2, delay_seconds = 1/2\<rparr>))
     = None \<and>
   calls (ui_step Play_click (start_page False \<lparr>max_delay_seconds = 2, delay_seconds = 1/2\<rparr>))
     = []"
proof -
  let ?P = "start_page False \<lparr>max_delay_seconds = 2, delay_seconds = 1/2\<rparr>"
  have ok: "page_ok ?P" by (rule page_ok_start)
  have click: "play_button_click ?P = Inl TypeError"
    by (simp add: play_button_click_def start_page_def)
  have same: "ui_step Play_click ?P = ?P" using click by simp
  have start: "handle ?P = None" "calls ?P = []" by (simp_all add: start_page_def)
  show ?thesis using ok click start unfolding same by simp
qed

text \<open>
  Claim C9, amended: when the import of \<^verbatim>\<open>./pkg\<close> has succeeded, every click of the
  play button stores a fresh handle from \<open>rust_module.play()\<close> by overwriting the variable
  \<open>handle\<close>; if a non-null handle was already stored, the play path never calls \<open>free()\<close>
  on it, so the previous session is orphaned rather than torn down.

  With the module loaded, the click succeeds; the stored handle is the one this call of
  \<open>play()\<close> returned, whatever was stored before; the module's state is the one \<open>play()\<close>
  left; and the only call the click adds to the log is \<open>play()\<close>. On a reachable page the
  returned handle was not in use before the click, and a handle \<open>h0\<close> that was stored before
  the click is orphaned from then on: whatever the user does afterwards, \<open>h0\<close> stays
  \<open>Active\<close> in the module, is never the stored handle again, and \<open>free()\<close> is never
  called on it.
\<close>

theorem play_click_orphans_previous_handle:
  assumes "loaded p"
  shows "\<exists>p'. play_button_click p = Inr p' \<and>
           handle p' = Some (fst (play (rust_module p))) \<and>
           rust_module p' = snd (play (rust_module p)) \<and>
           calls p' = calls p @ [Called_play] \<and>
           (page_ok p \<longrightarrow>
              handles (rust_module p) (fst (play (rust_module p))) = None \<and>
              (\<forall>h0. handle p = Some h0 \<longrightarrow>
                 (\<forall>evs. orphaned (ui_run evs p') h0 \<and>
                        Called_free h0 \<notin> set (calls (ui_run evs p')))))"
proof -
  define p' where "p' = p\<lparr>rust_module := snd (play (rust_module p)),
      handle := Some (fst (play (rust_module p))), calls := calls p @ [Called_play]\<rparr>"
  have click: "play_button_click p = Inr p'"
    using assms by (simp add: play_button_click_loaded p'_def)
  have orph: "page_ok p \<longrightarrow>
      handles (rust_module p) (fst (play (rust_module p))) = None \<and>
      (\<forall>h0. handle p = Some h0 \<longrightarrow>
         (\<forall>evs. orphaned (ui_run evs p') h0 \<and> Called_free h0 \<notin> set (calls (ui_run evs p'))))"
  proof (intro impI conjI allI)
    assume pk: "page_ok p"
    then have ok: "engine_ok (rust_module p)" by (simp add: page_ok_def)
    then have u: "handles (rust_module p) (next_id (rust_module p)) = None"
      by (rule next_id_unused)
    then show "handles (rust_module p) (fst (play (rust_module p))) = None"
      by (simp add: fst_play)
    have ok': "page_ok p'" unfolding p'_def using pk by (rule page_ok_play)
    fix h0 evs
    assume st: "handle p = Some h0"
    then have a0: "is_active (rust_module p) h0" using pk by (simp add: page_ok_def)
    then have ne: "h0 \<noteq> next_id (rust_module p)" using u by (auto simp: is_active_def)
    have o: "orphaned p' h0"
      using a0 ne by (simp add: orphaned_def p'_def fst_play is_active_play [OF u])
    show "orphaned (ui_run evs p') h0" using ok' o by (rule orphaned_ui_run)
    then show "Called_free h0 \<notin> set (calls (ui_run evs p'))"
      using page_ok_ui_run [OF ok'] orphaned_never_freed by blast
  qed
  show ?thesis
    using click orph by (intro exI [of _ p']) (simp add: p'_def)
qed

text \<open>
  The theorem on the page after one click on play, where handle 0 is stored: a second
  click stores handle 1 and logs a second \<open>play()\<close> only; after stop, play, stop, stop,
  handle 0 is still \<open>Active\<close> and \<open>free()\<close> has not been called on it.
\<close>

theorem play_click_orphans_previous_handle_witness:
  "handle (ui_run [Play_click] (start_page True \<lparr>max_delay_seconds = 2, delay_seconds = 1/2\<rparr>))
     = Some 0 \<and>
   (\<exists>p'. play_button_click
            (ui_run [Play_click] (start_page True \<lparr>max_delay_seconds = 2, delay_seconds = 1/2\<rparr>))
            = Inr p' \<and>
         handle p' = Some 1 \<and>
         calls p' = [Called_play, Called_play] \<and>
         orphaned (ui_run [Stop_click, Play_click, Stop_click, Stop_click] p') 0 \<and>
         Called_free 0 \<notin> set (calls (ui_run [Stop_click, Play_click, Stop_click, Stop_click] p')))"
proof -
  let ?P = "ui_run [Play_click] (start_page True \<lparr>max_delay_seconds = 2, delay_seconds = 1/2\<rparr>)"
  have ok: "page_ok ?P" by (rule page_ok_reachable)
  have P: "loaded ?P" "handle ?P = Some 0" "fst (play (rust_module ?P)) = 1"
    "calls ?P = [Called_play]"
    by (simp_all add: start_page_def new_engine_def play_button_click_def play_def)
  from play_click_orphans_previous_handle [OF P(1)]
  obtain p' where p': "play_button_click ?P = Inr p'"
      "handle p' = Some (fst (play (rust_module ?P)))"
      "calls p' = calls ?P @ [Called_play]"
      "page_ok ?P \<longrightarrow> (\<forall>h0. handle ?P = Some h0 \<longrightarrow>
         (\<forall>evs. orphaned (ui_run evs p') h0 \<and> Called_free h0 \<notin> set (calls (ui_run evs p'))))"
    by blast
  from p'(4) ok P(2) have
    "orphaned (ui_run [Stop_click, Play_click, Stop_click, Stop_click] p') 0 \<and>
     Called_free 0 \<notin> set (calls (ui_run [Stop_click, Play_click, Stop_click, Stop_click] p'))"
    by blast
  then show ?thesis using p'(1,2,3) P(2,3,4) by auto
qed

end
